theory Spec2Isabelle
  imports Main "HOL-Library.Sublist"
begin

section \<open>Python strings and lists\<close>

text \<open>
  Text is a \<open>string\<close>, a list of 8-bit characters, each read as the Unicode code point of
  the same number (the Latin-1 range, code points below 256). On that range the functions
  below are Python's \<open>str\<close> methods of the same names: \<open>isspace\<close> holds of the twelve code
  points that \<open>str.strip()\<close> removes, and \<open>lower\<close> moves A-Z and the accented capitals
  0xC0-0xDE (the multiplication sign 0xD7 apart) up by 32.
\<close>

definition newline :: char where
  "newline = CHR 0x0A"

definition isspace :: "char \<Rightarrow> bool" where
  "isspace c = (of_char c \<in> {9, 10, 11, 12, 13, 28, 29, 30, 31, 32, 133, 160 :: nat})"

definition lower_char :: "char \<Rightarrow> char" where
  "lower_char c =
     (let n = of_char c :: nat
      in if (65 \<le> n \<and> n \<le> 90) \<or> (192 \<le> n \<and> n \<le> 222 \<and> n \<noteq> 215)
         then char_of (n + 32) else c)"

definition lower :: "string \<Rightarrow> string" where
  "lower s = map lower_char s"

text \<open>\<open>s.strip(chars)\<close>: drop the characters of \<open>chars\<close> from both ends.\<close>

definition strip_chars :: "string \<Rightarrow> string \<Rightarrow> string" where
  "strip_chars chars s =
     rev (dropWhile (\<lambda>c. c \<in> set chars) (rev (dropWhile (\<lambda>c. c \<in> set chars) s)))"

text \<open>\<open>s.strip()\<close>: drop whitespace from both ends.\<close>

definition strip :: "string \<Rightarrow> string" where
  "strip s = rev (dropWhile isspace (rev (dropWhile isspace s)))"

text \<open>\<open>s.split(d)\<close> for a one-character separator: never the empty list.\<close>

fun split_on :: "char \<Rightarrow> string \<Rightarrow> string list" where
  "split_on d [] = [[]]"
| "split_on d (c # cs) =
     (if c = d then [] # split_on d cs
      else (case split_on d cs of [] \<Rightarrow> [[c]] | l # ls \<Rightarrow> (c # l) # ls))"

definition startswith :: "string \<Rightarrow> string \<Rightarrow> bool" where
  "startswith s p = prefix p s"

text \<open>\<open>sub in s\<close> on strings.\<close>

definition contains :: "string \<Rightarrow> string \<Rightarrow> bool" where
  "contains s sub = sublist sub s"

text \<open>
  \<open>s.replace(old, new)\<close>: every occurrence of \<open>old\<close>, found from the left and not
  overlapping, becomes \<open>new\<close>. With an empty \<open>old\<close> Python puts \<open>new\<close> before every
  character and at the end.
\<close>

function replace :: "string \<Rightarrow> string \<Rightarrow> string \<Rightarrow> string" where
  "replace old new [] = (if old = [] then new else [])"
| "replace old new (c # cs) =
     (if old = [] then new @ c # replace old new cs
      else if prefix old (c # cs) then new @ replace old new (drop (length old) (c # cs))
      else c # replace old new cs)"
  by pat_completeness auto
termination
  by (relation "measure (\<lambda>(old, new, s). length s)") auto

datatype error = IndexError

text \<open>
  \<open>xs[i]\<close> on a list of length \<open>n\<close>: the indices \<open>0 .. n - 1\<close> read from the front, the
  indices \<open>-n .. -1\<close> from the back, every other index raises \<open>IndexError\<close>.
\<close>

definition getitem :: "'a list \<Rightarrow> int \<Rightarrow> error + 'a" where
  "getitem xs i =
     (if 0 \<le> i \<and> i < int (length xs) then Inr (xs ! nat i)
      else if - int (length xs) \<le> i \<and> i < 0 then Inr (xs ! nat (int (length xs) + i))
      else Inl IndexError)"

section \<open>The session state\<close>

record ResumeSchema =
  name :: string
  summary :: string
  experience_years :: int
  skills :: "string list"
  links :: "string list"
  projects :: "string list"

datatype message = AIMessage (content: string) | HumanMessage (content: string)

record InterviewState =
  resume :: ResumeSchema
  questions :: "string list"
  current_index :: int
  answers :: "string list"
  strengths :: "string list"
  weaknesses :: "string list"
  messages :: "message list"

section \<open>Node 1: generate\_questions\<close>

text \<open>
  The hosted model is outside the program: each call is taken to return, and the text of
  its reply is an argument of the function that makes the call. The prompt is built from
  \<open>resume.get(...)\<close> only, which cannot fail.

  The cleaning of one line, \<open>line.strip("12345. ").strip()\<close>:
\<close>

definition clean_line :: "string \<Rightarrow> string" where
  "clean_line line = strip (strip_chars ''12345. '' line)"

text \<open>
  The loop over the lines of the reply, with the list \<open>qs\<close> (\<open>questions\<close> in the source)
  it appends to.
\<close>

fun question_loop :: "string list \<Rightarrow> string list \<Rightarrow> string list" where
  "question_loop qs [] = qs"
| "question_loop qs (line # lines) =
     (let clean = clean_line line
      in question_loop (if clean \<noteq> [] then qs @ [clean] else qs) lines)"

text \<open>
  The returned dictionary has every key of the state but \<open>resume\<close>; the result here is the
  state with these keys overwritten. \<open>questions[0]\<close> raises on an empty list.
\<close>

definition generate_questions :: "InterviewState \<Rightarrow> string \<Rightarrow> error + InterviewState" where
  "generate_questions state reply =
     (let qs = question_loop [] (split_on newline reply)
      in case getitem qs 0 of
           Inl e \<Rightarrow> Inl e
         | Inr first \<Rightarrow>
             Inr (state\<lparr>questions := take 5 qs, current_index := 0, answers := [],
                        strengths := [], weaknesses := [],
                        messages := [AIMessage first]\<rparr>))"

section \<open>Node 2: evaluate\_answer\<close>

text \<open>
  The loop over the lines of the lower-cased evaluation reply. Its three tests are
  independent \<open>if\<close>s; a later line that starts with \<open>strength\<close> overwrites the value an
  earlier one left.
\<close>

fun evaluation_loop :: "string \<times> string \<times> bool \<Rightarrow> string list \<Rightarrow> string \<times> string \<times> bool" where
  "evaluation_loop (strength, weakness, followup_needed) [] =
     (strength, weakness, followup_needed)"
| "evaluation_loop (strength, weakness, followup_needed) (line # lines) =
     evaluation_loop
       (if startswith line ''strength'' then strip (replace ''strength:'' '''' line)
        else strength,
        if startswith line ''weakness'' then strip (replace ''weakness:'' '''' line)
        else weakness,
        if contains line ''followup: yes'' then True else followup_needed)
       lines"

text \<open>
  The dictionary that \<open>evaluate_answer\<close> returns: \<open>messages\<close> always, \<open>current_index\<close>
  only when the interview moves on.
\<close>

record StateUpdate =
  upd_current_index :: "int option"
  upd_messages :: "message list"

text \<open>
  \<open>evaluate_answer\<close> appends to the lists \<open>state["strengths"]\<close> and
  \<open>state["weaknesses"]\<close> in place, which its caller sees, and returns the dictionary: the
  result is the state after the call together with the dictionary. \<open>answers[-1]\<close> and
  \<open>questions[idx]\<close> are read while the evaluation prompt is built, before the model is
  called. The first reply is that of the evaluation call, the second that of the follow-up
  call, made only when a follow-up is needed.
\<close>

definition evaluate_answer ::
  "InterviewState \<Rightarrow> string \<Rightarrow> string \<Rightarrow> error + (InterviewState \<times> StateUpdate)" where
  "evaluate_answer state reply followup_reply =
     (let idx = current_index state; qs = questions state
      in case getitem (answers state) (- 1) of
           Inl e \<Rightarrow> Inl e
         | Inr last_answer \<Rightarrow>
        (case getitem qs idx of
           Inl e \<Rightarrow> Inl e
         | Inr question \<Rightarrow>
             (let (strength, weakness, followup_needed) =
                    evaluation_loop ([], [], False) (split_on newline (lower reply));
                  state1 = (if strength \<noteq> []
                            then state\<lparr>strengths := strengths state @ [strength]\<rparr>
                            else state);
                  state2 = (if weakness \<noteq> []
                            then state1\<lparr>weaknesses := weaknesses state1 @ [weakness]\<rparr>
                            else state1)
              in if followup_needed
                 then Inr (state2, \<lparr>upd_current_index = None,
                                    upd_messages = [AIMessage (strip followup_reply)]\<rparr>)
                 else
                   (let idx' = idx + 1
                    in if idx' \<ge> int (length qs)
                       then Inr (state2, \<lparr>upd_current_index = Some idx',
                                          upd_messages = [AIMessage ''Interview complete.'']\<rparr>)
                       else (case getitem qs idx' of
                               Inl e \<Rightarrow> Inl e
                             | Inr next_question \<Rightarrow>
                                 Inr (state2, \<lparr>upd_current_index = Some idx',
                                              upd_messages = [AIMessage next_question]\<rparr>))))))"

text \<open>
  The index of the session once the dictionary is applied: a dictionary without
  \<open>current_index\<close> leaves it as it was (the runner's \<open>result.get("current_index") is None\<close>).
\<close>

definition index_after :: "InterviewState \<Rightarrow> StateUpdate \<Rightarrow> int" where
  "index_after state upd =
     (case upd_current_index upd of None \<Rightarrow> current_index state | Some i \<Rightarrow> i)"

section \<open>The interview runner\<close>

text \<open>
  The local variables of \<open>run_interview\<close>: the state dictionary, \<open>questions\<close>,
  \<open>current_question\<close>, \<open>idx\<close> and \<open>followup_mode\<close>.
\<close>

record Runner =
  run_state :: InterviewState
  run_questions :: "string list"
  current_question :: string
  run_idx :: int
  followup_mode :: bool

datatype control = Continue | Break

definition initial_state :: "ResumeSchema \<Rightarrow> InterviewState" where
  "initial_state resume_data =
     \<lparr>resume = resume_data, questions = [], current_index = 0, answers = [],
      strengths = [], weaknesses = [], messages = []\<rparr>"

text \<open>
  Up to the loop: the graph runs \<open>generate_questions\<close> on a copy of the start state, so
  the runner's own state dictionary keeps its empty lists. The argument is the structured
  resume, the reply that of the question-generating call.
\<close>

definition start_interview :: "ResumeSchema \<Rightarrow> string \<Rightarrow> error + Runner" where
  "start_interview resume_data reply =
     (let st = initial_state resume_data
      in case generate_questions st reply of
           Inl e \<Rightarrow> Inl e
         | Inr result \<Rightarrow>
             (case getitem (messages result) (- 1) of
                Inl e \<Rightarrow> Inl e
              | Inr m \<Rightarrow>
                  Inr \<lparr>run_state = st, run_questions = questions result,
                       current_question = content m, run_idx = 0, followup_mode = False\<rparr>))"

text \<open>
  One pass through the body of \<open>while True\<close>. A turn is what the pass reads from outside:
  the answer typed in, the evaluation reply and the follow-up reply.
\<close>

definition loop_body :: "Runner \<Rightarrow> string \<times> string \<times> string \<Rightarrow> error + (control \<times> Runner)" where
  "loop_body r turn =
     (let (answer, reply, followup_reply) = turn;
          st = (run_state r)\<lparr>answers := answers (run_state r) @ [answer],
                             current_index := run_idx r,
                             questions := run_questions r\<rparr>
      in case evaluate_answer st reply followup_reply of
           Inl e \<Rightarrow> Inl e
         | Inr (st', result) \<Rightarrow>
             (case getitem (upd_messages result) (- 1) of
                Inl e \<Rightarrow> Inl e
              | Inr m \<Rightarrow>
                  (let r1 = r\<lparr>run_state := st', current_question := content m\<rparr>
                   in if contains (lower (content m)) ''interview complete''
                      then Inr (Break, r1)
                      else
                        (let r2 = (case upd_current_index result of
                                     None \<Rightarrow> r1\<lparr>followup_mode := True\<rparr>
                                   | Some i \<Rightarrow> r1\<lparr>run_idx := i, followup_mode := False\<rparr>)
                         in if run_idx r2 \<ge> int (length (run_questions r2))
                            then Inr (Break, r2)
                            else Inr (Continue, r2)))))"

text \<open>
  The loop on a finite list of turns: it stops at the first \<open>break\<close> and at an uncaught
  error, and is still running (\<open>Continue\<close>) when the turns given are used up.
\<close>

fun interview_loop ::
  "Runner \<Rightarrow> (string \<times> string \<times> string) list \<Rightarrow> error + (control \<times> Runner)" where
  "interview_loop r [] = Inr (Continue, r)"
| "interview_loop r (turn # turns) =
     (case loop_body r turn of
        Inl e \<Rightarrow> Inl e
      | Inr (Break, r') \<Rightarrow> Inr (Break, r')
      | Inr (Continue, r') \<Rightarrow> interview_loop r' turns)"

definition run_interview ::
  "ResumeSchema \<Rightarrow> string \<Rightarrow> (string \<times> string \<times> string) list \<Rightarrow> error + (control \<times> Runner)" where
  "run_interview resume_data reply turns =
     (case start_interview resume_data reply of
        Inl e \<Rightarrow> Inl e
      | Inr r \<Rightarrow> interview_loop r turns)"

text \<open>
  The invariant of the loop: \<open>idx\<close> points at a question, and the index last written to
  the state dictionary is not ahead of it.
\<close>

definition index_in_range :: "Runner \<Rightarrow> bool" where
  "index_in_range r \<longleftrightarrow>
     0 \<le> run_idx r \<and> run_idx r < int (length (run_questions r))
     \<and> 0 \<le> current_index (run_state r) \<and> current_index (run_state r) \<le> run_idx r"

section \<open>An example session\<close>

text \<open>The state of the specification's example: two questions, the first one just answered.\<close>

definition example_resume :: ResumeSchema where
  "example_resume =
     \<lparr>name = ''Ada'', summary = ''Engineer'', experience_years = 3,
      skills = [''Python''], links = [], projects = []\<rparr>"

definition example_state :: InterviewState where
  "example_state =
     \<lparr>resume = example_resume, questions = [''Explain X'', ''Explain Y''],
      current_index = 0, answers = [''X is a thing''], strengths = [], weaknesses = [],
      messages = []\<rparr>"

text \<open>
  An interview on these two questions: a follow-up on the first, then two answers that
  move on. The runner it ends in has asked its last question.
\<close>

definition example_turns :: "(string \<times> string \<times> string) list" where
  "example_turns =
     [(''X is a thing'', ''Weakness: vague\<newline>FollowUp: yes'', ''Why X?''),
      (''Because'', ''Strength: clear\<newline>FollowUp: no'', []),
      (''Y is another'', ''FollowUp: no'', [])]"

definition example_end :: Runner where
  "example_end =
     \<lparr>run_state =
        \<lparr>resume = example_resume, questions = [''Explain X'', ''Explain Y''],
         current_index = 1, answers = [''X is a thing'', ''Because'', ''Y is another''],
         strengths = [''clear''], weaknesses = [''vague''], messages = []\<rparr>,
      run_questions = [''Explain X'', ''Explain Y''],
      current_question = ''Interview complete.'', run_idx = 1, followup_mode = False\<rparr>"

section \<open>Lines and substrings\<close>

lemma split_on_not_Nil: "split_on d s \<noteq> []"
  by (induction s) (auto split: list.splits)

lemma hd_split_on: "hd (split_on d s) = takeWhile (\<lambda>c. c \<noteq> d) s"
  by (induction s) (auto simp: split_on_not_Nil split: list.splits)

lemma prefix_takeWhile_sep:
  "prefix p s \<Longrightarrow> d \<notin> set p \<Longrightarrow> prefix p (takeWhile (\<lambda>c. c \<noteq> d) s)"
proof (induction p arbitrary: s)
  case Nil
  then show ?case by simp
next
  case (Cons a p)
  then obtain s' where s: "s = a # s'" and "prefix p s'"
    by (cases s) auto
  with Cons show ?case by auto
qed

lemma sublist_in_line:
  "sublist p s \<Longrightarrow> d \<notin> set p \<Longrightarrow> \<exists>l \<in> set (split_on d s). sublist p l"
proof (induction s)
  case Nil
  then show ?case by simp
next
  case (Cons c cs)
  obtain l ls where sp: "split_on d cs = l # ls"
    using split_on_not_Nil [of d cs] by (cases "split_on d cs") auto
  have l: "l = takeWhile (\<lambda>c. c \<noteq> d) cs"
    using hd_split_on [of d cs] sp by simp
  from Cons.prems(1) have "prefix p (c # cs) \<or> sublist p cs"
    by (simp add: sublist_Cons_right)
  then show ?case
  proof
    assume pre: "prefix p (c # cs)"
    show ?thesis
    proof (cases "c = d")
      case True
      with pre Cons.prems(2) have "p = []" by (cases p) auto
      moreover obtain x where "x \<in> set (split_on d (c # cs))"
        using split_on_not_Nil [of d "c # cs"] by (cases "split_on d (c # cs)") auto
      ultimately show ?thesis by blast
    next
      case False
      have "prefix p (takeWhile (\<lambda>c. c \<noteq> d) (c # cs))"
        using pre Cons.prems(2) by (rule prefix_takeWhile_sep)
      with False l have "prefix p (c # l)" by simp
      then have "sublist p (c # l)" by (rule prefix_imp_sublist)
      with False sp show ?thesis by simp
    qed
  next
    assume "sublist p cs"
    with Cons.IH Cons.prems(2) obtain l' where l': "l' \<in> set (split_on d cs)" "sublist p l'"
      by blast
    show ?thesis
    proof (cases "c = d")
      case True
      with l' show ?thesis by auto
    next
      case False
      show ?thesis
      proof (cases "l' = l")
        case True
        with l'(2) have "sublist p (c # l)" by (simp add: sublist_Cons_right)
        with False sp show ?thesis by simp
      next
        case False
        with l'(1) sp have "l' \<in> set ls" by simp
        with \<open>c \<noteq> d\<close> sp l'(2) show ?thesis by auto
      qed
    qed
  qed
qed

lemma line_sublist: "l \<in> set (split_on d s) \<Longrightarrow> sublist l s"
proof (induction s arbitrary: l)
  case Nil
  then show ?case by simp
next
  case (Cons c cs)
  obtain l0 ls where sp: "split_on d cs = l0 # ls"
    using split_on_not_Nil [of d cs] by (cases "split_on d cs") auto
  have l0: "l0 = takeWhile (\<lambda>c. c \<noteq> d) cs"
    using hd_split_on [of d cs] sp by simp
  show ?case
  proof (cases "c = d")
    case True
    with Cons.prems have "l = [] \<or> l \<in> set (split_on d cs)" by simp
    then show ?thesis using Cons.IH by (auto simp: sublist_Cons_right)
  next
    case False
    with Cons.prems sp have "l = c # l0 \<or> l \<in> set ls" by simp
    then show ?thesis
    proof
      assume "l = c # l0"
      then have "prefix l (c # cs)" using l0 by (simp add: takeWhile_is_prefix)
      then show ?thesis by (rule prefix_imp_sublist)
    next
      assume "l \<in> set ls"
      then have "sublist l cs" using Cons.IH sp by simp
      then show ?thesis by (simp add: sublist_Cons_right)
    qed
  qed
qed

lemma contains_lines:
  "d \<notin> set p \<Longrightarrow> (\<exists>l \<in> set (split_on d s). contains l p) \<longleftrightarrow> contains s p"
  unfolding contains_def
  using sublist_in_line line_sublist sublist_order.order_trans by blast

section \<open>Each loop in closed form\<close>

lemma question_loop_eq:
  "question_loop qs lines = qs @ filter (\<lambda>q. q \<noteq> []) (map clean_line lines)"
  by (induction lines arbitrary: qs) (auto simp: Let_def)

lemma evaluation_loop_followup:
  "snd (snd (evaluation_loop (s, w, f) lines)) \<longleftrightarrow> f \<or> (\<exists>l \<in> set lines. contains l ''followup: yes'')"
  by (induction lines arbitrary: s w f) auto

lemma evaluation_loop_strength:
  "fst (evaluation_loop (s, w, f) lines) =
     (case filter (\<lambda>l. startswith l ''strength'') lines of
        [] \<Rightarrow> s
      | l # ls \<Rightarrow> strip (replace ''strength:'' '''' (last (l # ls))))"
proof (induction lines arbitrary: s w f)
  case Nil
  then show ?case by simp
next
  case (Cons line lines)
  show ?case
    by (simp add: Cons.IH split: list.splits)
qed

lemma evaluation_loop_weakness:
  "fst (snd (evaluation_loop (s, w, f) lines)) =
     (case filter (\<lambda>l. startswith l ''weakness'') lines of
        [] \<Rightarrow> w
      | l # ls \<Rightarrow> strip (replace ''weakness:'' '''' (last (l # ls))))"
proof (induction lines arbitrary: s w f)
  case Nil
  then show ?case by simp
next
  case (Cons line lines)
  show ?case
    by (simp add: Cons.IH split: list.splits)
qed

lemma lower_followup: "lower ''followup: yes'' = ''followup: yes''"
  by (simp add: lower_def lower_char_def)

lemma newline_notin_followup: "newline \<notin> set ''followup: yes''"
  by (simp add: newline_def)

lemma contains_lower:
  "contains s ''followup: yes'' \<Longrightarrow> contains (lower s) ''followup: yes''"
  unfolding contains_def lower_def
  using map_mono_sublist [of "''followup: yes''" s lower_char] lower_followup
  by (simp add: lower_def)

lemma replace_no_occurrence: "\<not> sublist old s \<Longrightarrow> replace old new s = s"
  by (induction s) (auto simp: sublist_Cons_right)

lemma replace_prefix: "old \<noteq> [] \<Longrightarrow> replace old [] (old @ s) = replace old [] s"
  by (cases old) auto

section \<open>Reading a list\<close>

lemma followup_needed_iff:
  "snd (snd (evaluation_loop ([], [], False) (split_on newline (lower reply))))
     \<longleftrightarrow> contains (lower reply) ''followup: yes''"
  using contains_lines [OF newline_notin_followup, of "lower reply"]
  by (simp add: evaluation_loop_followup)

lemma getitem_Inr_bounds:
  "getitem xs i = Inr x \<Longrightarrow> - int (length xs) \<le> i \<and> i < int (length xs)"
  by (auto simp: getitem_def Let_def split: if_splits)

lemma getitem_bounds_Inr:
  "- int (length xs) \<le> i \<Longrightarrow> i < int (length xs) \<Longrightarrow> \<exists>x. getitem xs i = Inr x"
  by (auto simp: getitem_def Let_def)

lemma getitem_past_end: "int (length xs) \<le> i \<Longrightarrow> getitem xs i = Inl IndexError"
  by (auto simp: getitem_def Let_def)

section \<open>What evaluate\_answer returns\<close>

lemma evaluate_answer_reads:
  assumes "evaluate_answer state reply followup_reply = Inr (state', upd)"
  shows "\<exists>a q. getitem (answers state) (- 1) = Inr a
           \<and> getitem (questions state) (current_index state) = Inr q"
  using assms
  by (auto simp: evaluate_answer_def Let_def split: sum.splits)

lemma evaluate_answer_state:
  assumes "evaluate_answer state reply followup_reply = Inr (state', upd)"
  shows "state' = state
           \<lparr>strengths := strengths state @
              (let s = fst (evaluation_loop ([], [], False) (split_on newline (lower reply)))
               in if s = [] then [] else [s]),
            weaknesses := weaknesses state @
              (let w = fst (snd (evaluation_loop ([], [], False) (split_on newline (lower reply))))
               in if w = [] then [] else [w])\<rparr>"
  using assms
  by (auto simp: evaluate_answer_def Let_def split: sum.splits if_splits prod.splits)

lemma evaluate_answer_followup:
  assumes "evaluate_answer state reply followup_reply = Inr (state', upd)"
    and "contains (lower reply) ''followup: yes''"
  shows "upd = \<lparr>upd_current_index = None, upd_messages = [AIMessage (strip followup_reply)]\<rparr>"
proof -
  obtain s w fl where loop: "evaluation_loop ([], [], False) (split_on newline (lower reply)) = (s, w, fl)"
    by (cases "evaluation_loop ([], [], False) (split_on newline (lower reply))") auto
  with followup_needed_iff [of reply] assms(2) have fl by simp
  with assms(1) loop show ?thesis
    by (auto simp: evaluate_answer_def Let_def split: sum.splits if_splits)
qed

lemma evaluate_answer_advance:
  assumes "evaluate_answer state reply followup_reply = Inr (state', upd)"
    and "\<not> contains (lower reply) ''followup: yes''"
  shows "upd_current_index upd = Some (current_index state + 1)
         \<and> (if current_index state + 1 \<ge> int (length (questions state))
            then upd_messages upd = [AIMessage ''Interview complete.'']
            else \<exists>q. getitem (questions state) (current_index state + 1) = Inr q
                   \<and> upd_messages upd = [AIMessage q])"
proof -
  obtain s w fl where loop: "evaluation_loop ([], [], False) (split_on newline (lower reply)) = (s, w, fl)"
    by (cases "evaluation_loop ([], [], False) (split_on newline (lower reply))") auto
  with followup_needed_iff [of reply] assms(2) have "\<not> fl" by simp
  with assms(1) loop show ?thesis
    by (auto simp: evaluate_answer_def Let_def split: sum.splits if_splits)
qed

lemma evaluate_answer_returns:
  assumes "getitem (answers state) (- 1) = Inr a"
    and "getitem (questions state) (current_index state) = Inr q"
  shows "\<exists>state' upd. evaluate_answer state reply followup_reply = Inr (state', upd)"
proof -
  obtain s w fl where loop: "evaluation_loop ([], [], False) (split_on newline (lower reply)) = (s, w, fl)"
    by (cases "evaluation_loop ([], [], False) (split_on newline (lower reply))") auto
  from getitem_Inr_bounds [OF assms(2)]
  have b: "- int (length (questions state)) \<le> current_index state"
    "current_index state < int (length (questions state))" by auto
  show ?thesis
  proof (cases "current_index state + 1 \<ge> int (length (questions state))")
    case True
    with assms loop show ?thesis
      by (simp add: evaluate_answer_def Let_def)
  next
    case False
    with b getitem_bounds_Inr [of "questions state" "current_index state + 1"]
    obtain q' where "getitem (questions state) (current_index state + 1) = Inr q'"
      by auto
    with False assms loop show ?thesis
      by (simp add: evaluate_answer_def Let_def)
  qed
qed

section \<open>The index never goes back\<close>

text \<open>
  Claim C3. Whatever the session state and the replies of the model, when
  \<open>evaluate_answer\<close> returns, the index of the session after the call (the index of the
  returned dictionary if it has one, the state's own otherwise) is at least the index
  before it; the call itself never writes \<open>state["current_index"]\<close>.
\<close>

theorem index_never_decremented:
  assumes "evaluate_answer state reply followup_reply = Inr (state', upd)"
  shows "current_index state \<le> index_after state' upd \<and> current_index state' = current_index state"
  using assms
  by (auto simp: evaluate_answer_def index_after_def Let_def
           split: sum.splits if_splits prod.splits)

theorem index_never_decremented_witness:
  "evaluate_answer example_state ''Strength: clear'' '''' =
     Inr (example_state\<lparr>strengths := [''clear'']\<rparr>,
          \<lparr>upd_current_index = Some 1, upd_messages = [AIMessage ''Explain Y'']\<rparr>)
   \<and> current_index example_state
       \<le> index_after (example_state\<lparr>strengths := [''clear'']\<rparr>)
            \<lparr>upd_current_index = Some 1, upd_messages = [AIMessage ''Explain Y'']\<rparr>
   \<and> current_index (example_state\<lparr>strengths := [''clear'']\<rparr>) = current_index example_state"
proof -
  have run: "evaluate_answer example_state ''Strength: clear'' '''' =
     Inr (example_state\<lparr>strengths := [''clear'']\<rparr>,
          \<lparr>upd_current_index = Some 1, upd_messages = [AIMessage ''Explain Y'']\<rparr>)"
    by code_simp
  from index_never_decremented [OF run] run show ?thesis by simp
qed

section \<open>A follow-up keeps the index\<close>

text \<open>
  Claim C1. When the evaluation reply contains the literal text \<open>followup: yes\<close> (and
  the reply exists, that is the two reads that build the evaluation prompt succeeded),
  \<open>evaluate_answer\<close> returns a dictionary whose only entry is the next message, the
  trimmed reply of the follow-up call, and the index of the session stays what it was.
\<close>

theorem followup_keeps_index:
  assumes "contains reply ''followup: yes''"
    and "getitem (answers state) (- 1) = Inr last_answer"
    and "getitem (questions state) (current_index state) = Inr question"
  shows "\<exists>state'. evaluate_answer state reply followup_reply =
             Inr (state', \<lparr>upd_current_index = None,
                          upd_messages = [AIMessage (strip followup_reply)]\<rparr>)
           \<and> current_index state' = current_index state
           \<and> index_after state' \<lparr>upd_current_index = None,
                  upd_messages = [AIMessage (strip followup_reply)]\<rparr> = current_index state"
proof -
  from evaluate_answer_returns [OF assms(2,3)]
  obtain state' upd where ret: "evaluate_answer state reply followup_reply = Inr (state', upd)"
    by blast
  from assms(1) have "contains (lower reply) ''followup: yes''"
    by (rule contains_lower)
  with ret have upd: "upd = \<lparr>upd_current_index = None,
      upd_messages = [AIMessage (strip followup_reply)]\<rparr>"
    by (rule evaluate_answer_followup)
  have "current_index state' = current_index state"
    by (subst evaluate_answer_state [OF ret]) simp
  with ret upd show ?thesis
    by (simp add: index_after_def)
qed

theorem followup_keeps_index_witness:
  "contains ''Weakness: vague. followup: yes'' ''followup: yes''
   \<and> getitem (answers example_state) (- 1) = Inr ''X is a thing''
   \<and> getitem (questions example_state) (current_index example_state) = Inr ''Explain X''
   \<and> (\<exists>state'. evaluate_answer example_state ''Weakness: vague. followup: yes'' '' Why X? '' =
             Inr (state', \<lparr>upd_current_index = None,
                          upd_messages = [AIMessage (strip '' Why X? '')]\<rparr>)
           \<and> current_index state' = current_index example_state
           \<and> index_after state' \<lparr>upd_current_index = None,
                  upd_messages = [AIMessage (strip '' Why X? '')]\<rparr> = current_index example_state)"
proof -
  have h1: "contains ''Weakness: vague. followup: yes'' ''followup: yes''"
    by code_simp
  have h2: "getitem (answers example_state) (- 1) = Inr ''X is a thing''"
    by code_simp
  have h3: "getitem (questions example_state) (current_index example_state) = Inr ''Explain X''"
    by code_simp
  from followup_keeps_index [OF h1 h2 h3, of "'' Why X? ''"] h1 h2 h3
  show ?thesis by blast
qed

section \<open>What a follow-up leaves alone\<close>

text \<open>
  Claim C10. When a follow-up is signalled (the lower-cased evaluation reply contains
  \<open>followup: yes\<close>), the returned dictionary holds the new message and nothing else, and
  the state after the call has the resume, questions, answers, index and messages it had
  before; its strengths and its weaknesses are each the old list or the old list with one
  more element.
\<close>

theorem followup_frame:
  assumes "evaluate_answer state reply followup_reply = Inr (state', upd)"
    and "contains (lower reply) ''followup: yes''"
  shows "upd = \<lparr>upd_current_index = None, upd_messages = [AIMessage (strip followup_reply)]\<rparr>
         \<and> resume state' = resume state \<and> questions state' = questions state
         \<and> answers state' = answers state \<and> current_index state' = current_index state
         \<and> messages state' = messages state
         \<and> (strengths state' = strengths state \<or> (\<exists>v. strengths state' = strengths state @ [v]))
         \<and> (weaknesses state' = weaknesses state
              \<or> (\<exists>v. weaknesses state' = weaknesses state @ [v]))"
proof -
  have upd: "upd = \<lparr>upd_current_index = None, upd_messages = [AIMessage (strip followup_reply)]\<rparr>"
    using assms by (rule evaluate_answer_followup)
  have frame: "resume state' = resume state \<and> questions state' = questions state
         \<and> answers state' = answers state \<and> current_index state' = current_index state
         \<and> messages state' = messages state"
    by (subst (1 2 3 4 5) evaluate_answer_state [OF assms(1)]) simp
  have s: "strengths state' = strengths state \<or> (\<exists>v. strengths state' = strengths state @ [v])"
    by (subst (1 2) evaluate_answer_state [OF assms(1)]) (simp add: Let_def)
  have w: "weaknesses state' = weaknesses state \<or> (\<exists>v. weaknesses state' = weaknesses state @ [v])"
    by (subst (1 2) evaluate_answer_state [OF assms(1)]) (simp add: Let_def)
  from upd frame s w show ?thesis by blast
qed

theorem followup_frame_witness:
  "evaluate_answer example_state ''Weakness: vague\<newline>FollowUp: Yes'' ''Why X?'' =
     Inr (example_state\<lparr>weaknesses := [''vague'']\<rparr>,
          \<lparr>upd_current_index = None, upd_messages = [AIMessage ''Why X?'']\<rparr>)
   \<and> contains (lower ''Weakness: vague\<newline>FollowUp: Yes'') ''followup: yes''
   \<and> resume (example_state\<lparr>weaknesses := [''vague'']\<rparr>) = resume example_state
   \<and> questions (example_state\<lparr>weaknesses := [''vague'']\<rparr>) = questions example_state
   \<and> answers (example_state\<lparr>weaknesses := [''vague'']\<rparr>) = answers example_state
   \<and> current_index (example_state\<lparr>weaknesses := [''vague'']\<rparr>)
       = current_index example_state"
proof -
  have run: "evaluate_answer example_state ''Weakness: vague\<newline>FollowUp: Yes'' ''Why X?'' =
     Inr (example_state\<lparr>weaknesses := [''vague'']\<rparr>,
          \<lparr>upd_current_index = None, upd_messages = [AIMessage ''Why X?'']\<rparr>)"
    by code_simp
  have sig: "contains (lower ''Weakness: vague\<newline>FollowUp: Yes'') ''followup: yes''"
    by code_simp
  from followup_frame [OF run sig] run sig show ?thesis by simp
qed

section \<open>Moving on to the next question\<close>

text \<open>
  Claim C2. A reply signals a follow-up when its lower-cased text contains
  \<open>followup: yes\<close>, the reply being lower-cased before it is searched. When the
  evaluation reply does not signal a follow-up (and the reply exists, that is the two
  reads that build the evaluation prompt succeeded), \<open>evaluate_answer\<close> returns the index
  plus one; the message is \<open>Interview complete.\<close> if the new index has reached the number
  of questions and the question at the new index otherwise. In particular, with the
  questions \<open>Explain X\<close>, \<open>Explain Y\<close> and the index 0 the new index is 1 and the
  message is \<open>Explain Y\<close>.
\<close>

theorem advance_increments_index:
  assumes "\<not> contains (lower reply) ''followup: yes''"
    and "getitem (answers state) (- 1) = Inr last_answer"
    and "getitem (questions state) (current_index state) = Inr question"
  shows "\<exists>state' upd. evaluate_answer state reply followup_reply = Inr (state', upd)
           \<and> upd_current_index upd = Some (current_index state + 1)
           \<and> index_after state' upd = current_index state + 1
           \<and> (if current_index state + 1 \<ge> int (length (questions state))
               then upd_messages upd = [AIMessage ''Interview complete.'']
               else \<exists>q. getitem (questions state) (current_index state + 1) = Inr q
                      \<and> upd_messages upd = [AIMessage q])
           \<and> (questions state = [''Explain X'', ''Explain Y''] \<and> current_index state = 0
                \<longrightarrow> index_after state' upd = 1 \<and> upd_messages upd = [AIMessage ''Explain Y''])"
proof -
  from evaluate_answer_returns [OF assms(2,3)]
  obtain state' upd where ret: "evaluate_answer state reply followup_reply = Inr (state', upd)"
    by blast
  note adv = evaluate_answer_advance [OF ret assms(1)]
  from adv have idx: "index_after state' upd = current_index state + 1"
    by (simp add: index_after_def)
  have ex: "index_after state' upd = 1 \<and> upd_messages upd = [AIMessage ''Explain Y'']"
    if "questions state = [''Explain X'', ''Explain Y'']" "current_index state = 0"
    using adv idx that by (auto simp: getitem_def)
  from ret adv idx ex show ?thesis by blast
qed

theorem advance_increments_index_witness:
  "\<not> contains (lower ''Strength: clear\<newline>FollowUp: no'') ''followup: yes''
   \<and> getitem (answers example_state) (- 1) = Inr ''X is a thing''
   \<and> getitem (questions example_state) (current_index example_state) = Inr ''Explain X''
   \<and> (\<exists>state' upd. evaluate_answer example_state ''Strength: clear\<newline>FollowUp: no'' [] =
             Inr (state', upd)
           \<and> upd_current_index upd = Some (current_index example_state + 1)
           \<and> index_after state' upd = 1 \<and> upd_messages upd = [AIMessage ''Explain Y''])"
proof -
  have h1: "\<not> contains (lower ''Strength: clear\<newline>FollowUp: no'') ''followup: yes''"
    by code_simp
  have h2: "getitem (answers example_state) (- 1) = Inr ''X is a thing''"
    by code_simp
  have h3: "getitem (questions example_state) (current_index example_state) = Inr ''Explain X''"
    by code_simp
  have q: "questions example_state = [''Explain X'', ''Explain Y''] \<and> current_index example_state = 0"
    by code_simp
  from advance_increments_index [OF h1 h2 h3, of "[]"] q h1 h2 h3
  show ?thesis by blast
qed

section \<open>What evaluate\_answer appends\<close>

lemma evaluate_answer_strengths:
  assumes "evaluate_answer state reply followup_reply = Inr (state', upd)"
  shows "strengths state' = strengths state @
           (case filter (\<lambda>l. startswith l ''strength'') (split_on newline (lower reply)) of
              [] \<Rightarrow> []
            | l # ls \<Rightarrow>
                (let v = strip (replace ''strength:'' '''' (last (l # ls)))
                 in if v = [] then [] else [v]))"
proof -
  have "strengths state' = strengths state @
      (let s = fst (evaluation_loop ([], [], False) (split_on newline (lower reply)))
       in if s = [] then [] else [s])"
    by (subst evaluate_answer_state [OF assms]) simp
  then show ?thesis
    unfolding evaluation_loop_strength by (simp add: Let_def split: list.splits)
qed

lemma evaluate_answer_weaknesses:
  assumes "evaluate_answer state reply followup_reply = Inr (state', upd)"
  shows "weaknesses state' = weaknesses state @
           (case filter (\<lambda>l. startswith l ''weakness'') (split_on newline (lower reply)) of
              [] \<Rightarrow> []
            | l # ls \<Rightarrow>
                (let v = strip (replace ''weakness:'' '''' (last (l # ls)))
                 in if v = [] then [] else [v]))"
proof -
  have "weaknesses state' = weaknesses state @
      (let w = fst (snd (evaluation_loop ([], [], False) (split_on newline (lower reply))))
       in if w = [] then [] else [w])"
    by (subst evaluate_answer_state [OF assms]) simp
  then show ?thesis
    unfolding evaluation_loop_weakness by (simp add: Let_def split: list.splits)
qed

lemma last_match:
  assumes "P x" and "\<forall>l \<in> set after. \<not> P l"
  shows "(case filter P (before @ x # after) of [] \<Rightarrow> a | l # ls \<Rightarrow> f (last (l # ls))) = f x"
proof -
  from assms have "filter P (before @ x # after) = filter P before @ [x]"
    by simp
  then show ?thesis
    by (cases "filter P before") simp_all
qed

lemma value_of_labelled_line:
  assumes "label \<noteq> []" and "\<not> contains rest label"
  shows "strip (replace label [] (label @ rest)) = strip rest"
  using assms by (simp add: replace_prefix replace_no_occurrence contains_def)

section \<open>One strength and one weakness per call\<close>

text \<open>
  Claim C9. A call of \<open>evaluate_answer\<close> that returns leaves each of the two lists with at
  most one element more than before. What it appends to the strengths is decided by the
  last line of the lower-cased reply that starts with \<open>strength\<close>: the value of that line,
  if it is not empty; the values of earlier such lines are lost. With no such line
  nothing is appended. The same holds of the weaknesses and \<open>weakness\<close>.
\<close>

theorem last_labelled_line_wins:
  assumes "evaluate_answer state reply followup_reply = Inr (state', upd)"
  shows "strengths state' = strengths state @
           (case filter (\<lambda>l. startswith l ''strength'') (split_on newline (lower reply)) of
              [] \<Rightarrow> []
            | l # ls \<Rightarrow>
                (let v = strip (replace ''strength:'' '''' (last (l # ls)))
                 in if v = [] then [] else [v]))
         \<and> weaknesses state' = weaknesses state @
           (case filter (\<lambda>l. startswith l ''weakness'') (split_on newline (lower reply)) of
              [] \<Rightarrow> []
            | l # ls \<Rightarrow>
                (let v = strip (replace ''weakness:'' '''' (last (l # ls)))
                 in if v = [] then [] else [v]))
         \<and> length (strengths state') \<le> length (strengths state) + 1
         \<and> length (weaknesses state') \<le> length (weaknesses state) + 1"
proof -
  note s = evaluate_answer_strengths [OF assms]
  note w = evaluate_answer_weaknesses [OF assms]
  have ls: "length (strengths state') \<le> length (strengths state) + 1"
    by (subst s) (simp add: Let_def split: list.splits)
  have lw: "length (weaknesses state') \<le> length (weaknesses state) + 1"
    by (subst w) (simp add: Let_def split: list.splits)
  from s w ls lw show ?thesis by blast
qed

theorem last_labelled_line_wins_witness:
  "evaluate_answer example_state
     ''Strength: clear\<newline>strength: fast\<newline>Weakness: vague\<newline>weakness: slow'' [] =
     Inr (example_state\<lparr>strengths := [''fast''], weaknesses := [''slow'']\<rparr>,
          \<lparr>upd_current_index = Some 1, upd_messages = [AIMessage ''Explain Y'']\<rparr>)
   \<and> length (strengths (example_state\<lparr>strengths := [''fast''], weaknesses := [''slow'']\<rparr>))
       \<le> length (strengths example_state) + 1
   \<and> length (weaknesses (example_state\<lparr>strengths := [''fast''], weaknesses := [''slow'']\<rparr>))
       \<le> length (weaknesses example_state) + 1"
proof -
  have run: "evaluate_answer example_state
     ''Strength: clear\<newline>strength: fast\<newline>Weakness: vague\<newline>weakness: slow'' [] =
     Inr (example_state\<lparr>strengths := [''fast''], weaknesses := [''slow'']\<rparr>,
          \<lparr>upd_current_index = Some 1, upd_messages = [AIMessage ''Explain Y'']\<rparr>)"
    by code_simp
  from last_labelled_line_wins [OF run] run show ?thesis by blast
qed

section \<open>A labelled line is recorded\<close>

text \<open>
  Claim C7. As stated the claim fails: the text recorded is cut from the lower-cased
  reply, and of several lines with the same label only the last counts. For the reply
  with the lines \<open>Strength: Good\<close> and \<open>Strength: Fast\<close> the one strength appended is
  \<open>fast\<close>; neither \<open>Good\<close> nor \<open>good\<close> nor \<open>Fast\<close> is.
\<close>

theorem labelled_line_counterexample:
  "evaluate_answer example_state ''Strength: Good\<newline>Strength: Fast'' [] =
     Inr (example_state\<lparr>strengths := [''fast'']\<rparr>,
          \<lparr>upd_current_index = Some 1, upd_messages = [AIMessage ''Explain Y'']\<rparr>)
   \<and> ''Good'' \<notin> set (strengths (example_state\<lparr>strengths := [''fast'']\<rparr>))
   \<and> ''good'' \<notin> set (strengths (example_state\<lparr>strengths := [''fast'']\<rparr>))
   \<and> ''Fast'' \<notin> set (strengths (example_state\<lparr>strengths := [''fast'']\<rparr>))"
  by code_simp

text \<open>
  Claim C7, amended. Take the lines of the lower-cased reply. If the last line that
  starts with \<open>strength\<close> is \<open>strength:\<close> followed by a text that holds no further
  \<open>strength:\<close> and is not empty once trimmed, a call of \<open>evaluate_answer\<close> that returns
  appends that text, trimmed, to the strengths. The same holds of \<open>weakness:\<close> and the
  weaknesses.
\<close>

theorem labelled_line_recorded:
  assumes "evaluate_answer state reply followup_reply = Inr (state', upd)"
  shows "(split_on newline (lower reply) = before_s @ (''strength:'' @ text_s) # after_s
            \<and> (\<forall>l \<in> set after_s. \<not> startswith l ''strength'')
            \<and> \<not> contains text_s ''strength:'' \<and> strip text_s \<noteq> []
          \<longrightarrow> strengths state' = strengths state @ [strip text_s])
       \<and> (split_on newline (lower reply) = before_w @ (''weakness:'' @ text_w) # after_w
            \<and> (\<forall>l \<in> set after_w. \<not> startswith l ''weakness'')
            \<and> \<not> contains text_w ''weakness:'' \<and> strip text_w \<noteq> []
          \<longrightarrow> weaknesses state' = weaknesses state @ [strip text_w])"
proof (intro conjI impI)
  assume h: "split_on newline (lower reply) = before_s @ (''strength:'' @ text_s) # after_s
            \<and> (\<forall>l \<in> set after_s. \<not> startswith l ''strength'')
            \<and> \<not> contains text_s ''strength:'' \<and> strip text_s \<noteq> []"
  have p: "startswith (''strength:'' @ text_s) ''strength''"
    by (simp add: startswith_def)
  have v: "strip (replace ''strength:'' [] (''strength:'' @ text_s)) = strip text_s"
    using h by (intro value_of_labelled_line) simp_all
  from h have sp: "split_on newline (lower reply) = before_s @ (''strength:'' @ text_s) # after_s"
    and af: "\<forall>l \<in> set after_s. \<not> startswith l ''strength''" and ne: "strip text_s \<noteq> []"
    by simp_all
  show "strengths state' = strengths state @ [strip text_s]"
    unfolding evaluate_answer_strengths [OF assms] sp
    by (subst last_match [where P = "\<lambda>l. startswith l ''strength''", OF p af])
       (simp only: v Let_def ne if_False)
next
  assume h: "split_on newline (lower reply) = before_w @ (''weakness:'' @ text_w) # after_w
            \<and> (\<forall>l \<in> set after_w. \<not> startswith l ''weakness'')
            \<and> \<not> contains text_w ''weakness:'' \<and> strip text_w \<noteq> []"
  have p: "startswith (''weakness:'' @ text_w) ''weakness''"
    by (simp add: startswith_def)
  have v: "strip (replace ''weakness:'' [] (''weakness:'' @ text_w)) = strip text_w"
    using h by (intro value_of_labelled_line) simp_all
  from h have sp: "split_on newline (lower reply) = before_w @ (''weakness:'' @ text_w) # after_w"
    and af: "\<forall>l \<in> set after_w. \<not> startswith l ''weakness''" and ne: "strip text_w \<noteq> []"
    by simp_all
  show "weaknesses state' = weaknesses state @ [strip text_w]"
    unfolding evaluate_answer_weaknesses [OF assms] sp
    by (subst last_match [where P = "\<lambda>l. startswith l ''weakness''", OF p af])
       (simp only: v Let_def ne if_False)
qed

theorem labelled_line_recorded_witness:
  "evaluate_answer example_state ''Strength: Good\<newline>Weakness: Vague\<newline>FollowUp: no'' [] =
     Inr (example_state\<lparr>strengths := [''good''], weaknesses := [''vague'']\<rparr>,
          \<lparr>upd_current_index = Some 1, upd_messages = [AIMessage ''Explain Y'']\<rparr>)
   \<and> (split_on newline (lower ''Strength: Good\<newline>Weakness: Vague\<newline>FollowUp: no'')
         = [] @ (''strength:'' @ '' good'') # [''weakness: vague'', ''followup: no'']
       \<and> \<not> startswith ''weakness: vague'' ''strength''
       \<and> \<not> startswith ''followup: no'' ''strength''
       \<and> \<not> contains '' good'' ''strength:'' \<and> strip '' good'' \<noteq> [])
   \<and> (split_on newline (lower ''Strength: Good\<newline>Weakness: Vague\<newline>FollowUp: no'')
         = [''strength: good''] @ (''weakness:'' @ '' vague'') # [''followup: no'']
       \<and> \<not> startswith ''followup: no'' ''weakness''
       \<and> \<not> contains '' vague'' ''weakness:'' \<and> strip '' vague'' \<noteq> [])
   \<and> strengths (example_state\<lparr>strengths := [''good''], weaknesses := [''vague'']\<rparr>)
       = strengths example_state @ [strip '' good'']
   \<and> weaknesses (example_state\<lparr>strengths := [''good''], weaknesses := [''vague'']\<rparr>)
       = weaknesses example_state @ [strip '' vague'']"
proof -
  have run: "evaluate_answer example_state
       ''Strength: Good\<newline>Weakness: Vague\<newline>FollowUp: no'' [] =
     Inr (example_state\<lparr>strengths := [''good''], weaknesses := [''vague'']\<rparr>,
          \<lparr>upd_current_index = Some 1, upd_messages = [AIMessage ''Explain Y'']\<rparr>)"
    by code_simp
  have hs: "split_on newline (lower ''Strength: Good\<newline>Weakness: Vague\<newline>FollowUp: no'')
         = [] @ (''strength:'' @ '' good'') # [''weakness: vague'', ''followup: no'']
       \<and> (\<forall>l \<in> set [''weakness: vague'', ''followup: no'']. \<not> startswith l ''strength'')
       \<and> \<not> contains '' good'' ''strength:'' \<and> strip '' good'' \<noteq> []"
    by code_simp
  have hw: "split_on newline (lower ''Strength: Good\<newline>Weakness: Vague\<newline>FollowUp: no'')
         = [''strength: good''] @ (''weakness:'' @ '' vague'') # [''followup: no'']
       \<and> (\<forall>l \<in> set [''followup: no'']. \<not> startswith l ''weakness'')
       \<and> \<not> contains '' vague'' ''weakness:'' \<and> strip '' vague'' \<noteq> []"
    by code_simp
  from labelled_line_recorded [OF run, where before_s = "[]" and text_s = "'' good''"
      and after_s = "[''weakness: vague'', ''followup: no'']"
      and before_w = "[''strength: good'']" and text_w = "'' vague''"
      and after_w = "[''followup: no'']"] hs hw run
  show ?thesis by simp
qed

section \<open>Trimming\<close>

text \<open>Both \<open>strip\<close> functions drop from the two ends what a test \<open>P\<close> accepts.\<close>

lemma trim_ends:
  assumes "rev (dropWhile P (rev (dropWhile P s))) \<noteq> []"
  shows "\<not> P (hd (rev (dropWhile P (rev (dropWhile P s)))))
         \<and> \<not> P (last (rev (dropWhile P (rev (dropWhile P s)))))
         \<and> hd (rev (dropWhile P (rev (dropWhile P s)))) = hd (dropWhile P s)"
proof -
  let ?ys = "dropWhile P s"
  let ?zs = "dropWhile P (rev ?ys)"
  from assms have zs: "?zs \<noteq> []" by simp
  have ys: "?ys \<noteq> []"
    using zs by (metis dropWhile.simps(1) rev.simps(1))
  have "\<not> P (hd ?zs)" using zs by (rule hd_dropWhile)
  then have l: "\<not> P (last (rev ?zs))" using zs by (simp add: last_rev)
  have "rev ?ys = takeWhile P (rev ?ys) @ ?zs" by simp
  then have "?ys = rev ?zs @ rev (takeWhile P (rev ?ys))"
    by (metis rev_append rev_rev_ident)
  then have "hd ?ys = hd (rev ?zs @ rev (takeWhile P (rev ?ys)))" by simp
  also have "\<dots> = hd (rev ?zs)" using zs by simp
  finally have h: "hd (rev ?zs) = hd ?ys" by simp
  have "\<not> P (hd ?ys)" using ys by (rule hd_dropWhile)
  with h l show ?thesis by simp
qed

lemma trim_subset: "set (rev (dropWhile P (rev (dropWhile P s)))) \<subseteq> set s"
proof -
  have "set (dropWhile P (rev (dropWhile P s))) \<subseteq> set (rev (dropWhile P s))"
    by (rule set_dropWhileD [THEN subsetI]) 
  also have "\<dots> \<subseteq> set s" using set_dropWhileD [of _ P s] by auto
  finally show ?thesis by simp
qed

lemma strip_ends:
  "strip s \<noteq> [] \<Longrightarrow> \<not> isspace (hd (strip s)) \<and> \<not> isspace (last (strip s))
     \<and> hd (strip s) = hd (dropWhile isspace s)"
  unfolding strip_def by (rule trim_ends)

lemma strip_chars_ends:
  "strip_chars chars s \<noteq> [] \<Longrightarrow> hd (strip_chars chars s) \<notin> set chars"
  unfolding strip_chars_def by (rule trim_ends [THEN conjunct1])

lemma strip_chars_subset: "set (strip_chars chars s) \<subseteq> set s"
  unfolding strip_chars_def by (rule trim_subset)

lemma strip_Nil_imp: "strip s \<noteq> [] \<Longrightarrow> s \<noteq> []"
  by (auto simp: strip_def)

lemma clean_line_hd:
  assumes "clean_line line \<noteq> []" and "\<forall>c \<in> set line. isspace c \<longrightarrow> c = CHR '' ''"
  shows "hd (clean_line line) \<notin> set ''12345. ''"
proof -
  let ?s = "strip_chars ''12345. '' line"
  from assms(1) have ne: "?s \<noteq> []"
    unfolding clean_line_def by (rule strip_Nil_imp)
  then have h: "hd ?s \<notin> set ''12345. ''" by (rule strip_chars_ends)
  have "hd ?s \<in> set line" using ne strip_chars_subset [of "''12345. ''" line]
    by (meson hd_in_set subsetD)
  with assms(2) h have "\<not> isspace (hd ?s)" by auto
  with ne have "dropWhile isspace ?s = ?s" by (cases ?s) auto
  with strip_ends [of ?s] assms(1) have "hd (clean_line line) = hd ?s"
    by (simp add: clean_line_def)
  with h show ?thesis by simp
qed

lemma generate_questions_Inr:
  assumes "generate_questions state reply = Inr state'"
  shows "questions state' = take 5 (filter (\<lambda>q. q \<noteq> []) (map clean_line (split_on newline reply)))"
  using assms
  by (auto simp: generate_questions_def Let_def question_loop_eq split: sum.splits)

section \<open>The questions kept\<close>

text \<open>
  Claim C5. When \<open>generate_questions\<close> returns, the questions of the new state are at most
  five, and they are the cleaned forms of the first five lines of the reply (of all of
  them, if there are fewer) that are not empty once cleaned, in the order of the lines.
\<close>

theorem at_most_five_questions:
  assumes "generate_questions state reply = Inr state'"
  shows "length (questions state') \<le> 5
         \<and> questions state' =
             map clean_line
               (take 5 (filter (\<lambda>line. clean_line line \<noteq> []) (split_on newline reply)))"
proof -
  have "questions state' =
      take 5 (filter (\<lambda>q. q \<noteq> []) (map clean_line (split_on newline reply)))"
    using assms by (rule generate_questions_Inr)
  then have eq: "questions state' =
      map clean_line (take 5 (filter (\<lambda>line. clean_line line \<noteq> []) (split_on newline reply)))"
    by (simp add: filter_map take_map comp_def)
  then have "length (questions state') \<le> 5" by simp
  with eq show ?thesis by simp
qed

theorem at_most_five_questions_witness:
  "generate_questions (initial_state example_resume)
     ''Sure:\<newline>1. A?\<newline>\<newline>2. B?\<newline>3. C?\<newline>4. D?\<newline>5. E?\<newline>6. F?'' =
     Inr ((initial_state example_resume)
            \<lparr>questions := [''Sure:'', ''A?'', ''B?'', ''C?'', ''D?''],
             messages := [AIMessage ''Sure:'']\<rparr>)
   \<and> length (questions ((initial_state example_resume)
            \<lparr>questions := [''Sure:'', ''A?'', ''B?'', ''C?'', ''D?''],
             messages := [AIMessage ''Sure:'']\<rparr>)) \<le> 5"
proof -
  have run: "generate_questions (initial_state example_resume)
     ''Sure:\<newline>1. A?\<newline>\<newline>2. B?\<newline>3. C?\<newline>4. D?\<newline>5. E?\<newline>6. F?'' =
     Inr ((initial_state example_resume)
            \<lparr>questions := [''Sure:'', ''A?'', ''B?'', ''C?'', ''D?''],
             messages := [AIMessage ''Sure:'']\<rparr>)"
    by code_simp
  from at_most_five_questions [OF run] run show ?thesis by blast
qed

section \<open>No line to ask\<close>

text \<open>
  Claim C8. A reply all of whose lines are empty once cleaned leaves the list of
  questions empty, and \<open>generate_questions\<close> then fails at \<open>questions[0]\<close> with an
  \<open>IndexError\<close>.
\<close>

theorem no_parsable_line_fails:
  assumes "\<forall>line \<in> set (split_on newline reply). clean_line line = []"
  shows "question_loop [] (split_on newline reply) = []
         \<and> generate_questions state reply = Inl IndexError"
proof -
  from assms have "filter (\<lambda>q. q \<noteq> []) (map clean_line (split_on newline reply)) = []"
    by (simp add: filter_empty_conv)
  then have "question_loop [] (split_on newline reply) = []"
    by (simp add: question_loop_eq)
  then show ?thesis
    by (simp add: generate_questions_def getitem_def)
qed

theorem no_parsable_line_fails_witness:
  "split_on newline ''1. \<newline> 2.\<newline>'' = [''1. '', '' 2.'', []]
   \<and> clean_line ''1. '' = [] \<and> clean_line '' 2.'' = [] \<and> clean_line [] = []
   \<and> question_loop [] (split_on newline ''1. \<newline> 2.\<newline>'') = []
   \<and> generate_questions (initial_state example_resume) ''1. \<newline> 2.\<newline>'' = Inl IndexError"
proof -
  have lines: "split_on newline ''1. \<newline> 2.\<newline>'' = [''1. '', '' 2.'', []]"
    by code_simp
  have c: "clean_line ''1. '' = [] \<and> clean_line '' 2.'' = [] \<and> clean_line [] = []"
    by code_simp
  from lines c have "\<forall>line \<in> set (split_on newline ''1. \<newline> 2.\<newline>''). clean_line line = []"
    by simp
  from no_parsable_line_fails [OF this, of "initial_state example_resume"] lines c
  show ?thesis by simp
qed

section \<open>How a question begins\<close>

text \<open>
  Claim C6. As stated the claim fails: only the digits 1 to 5 are among the characters
  removed, so the line \<open>6. Why?\<close> is kept whole and the question begins with a numeral.
\<close>

theorem question_start_counterexample:
  "generate_questions (initial_state example_resume) ''6. Why?'' =
     Inr ((initial_state example_resume)
            \<lparr>questions := [''6. Why?''], messages := [AIMessage ''6. Why?'']\<rparr>)
   \<and> hd (hd (questions ((initial_state example_resume)
            \<lparr>questions := [''6. Why?''], messages := [AIMessage ''6. Why?'']\<rparr>))) = CHR ''6''"
  by code_simp

text \<open>
  Claim C6, amended. Every question in the output is non-empty and neither begins nor
  ends with a whitespace character, a space in particular. It is the cleaned form of a
  line of the reply, and if it is the cleaned form of a line whose only whitespace is
  spaces, it begins with none of the characters \<open>1 2 3 4 5 .\<close> and space.
\<close>

theorem question_start:
  assumes "generate_questions state reply = Inr state'"
    and "q \<in> set (questions state')"
  shows "q \<noteq> [] \<and> \<not> isspace (hd q) \<and> \<not> isspace (last q)
         \<and> q \<in> clean_line ` set (split_on newline reply)
         \<and> (q = clean_line line \<and> (\<forall>c \<in> set line. isspace c \<longrightarrow> c = CHR '' '')
              \<longrightarrow> hd q \<notin> set ''12345. '')"
proof -
  from assms have "q \<in> set (filter (\<lambda>q. q \<noteq> []) (map clean_line (split_on newline reply)))"
    by (auto simp: generate_questions_Inr dest: in_set_takeD)
  then have ne: "q \<noteq> []" and im: "q \<in> clean_line ` set (split_on newline reply)"
    by auto
  from im obtain l where q: "q = strip (strip_chars ''12345. '' l)"
    by (auto simp: clean_line_def)
  from ne strip_ends [of "strip_chars ''12345. '' l"]
  have sp: "\<not> isspace (hd q) \<and> \<not> isspace (last q)"
    unfolding q by blast
  have "hd q \<notin> set ''12345. ''"
    if "q = clean_line line" "\<forall>c \<in> set line. isspace c \<longrightarrow> c = CHR '' ''"
    using clean_line_hd [of line] that ne by blast
  with ne sp im show ?thesis by blast
qed

theorem question_start_witness:
  "generate_questions (initial_state example_resume) '' 1. Explain X\<newline>2. Explain Y '' =
     Inr ((initial_state example_resume)
            \<lparr>questions := [''Explain X'', ''Explain Y''], messages := [AIMessage ''Explain X'']\<rparr>)
   \<and> ''Explain X'' = clean_line '' 1. Explain X''
   \<and> ''Explain X'' \<noteq> [] \<and> \<not> isspace (hd ''Explain X'') \<and> \<not> isspace (last ''Explain X'')
   \<and> hd ''Explain X'' \<notin> set ''12345. ''"
proof -
  have run: "generate_questions (initial_state example_resume)
       '' 1. Explain X\<newline>2. Explain Y '' =
     Inr ((initial_state example_resume)
            \<lparr>questions := [''Explain X'', ''Explain Y''], messages := [AIMessage ''Explain X'']\<rparr>)"
    by code_simp
  have mem: "''Explain X'' \<in> set (questions ((initial_state example_resume)
            \<lparr>questions := [''Explain X'', ''Explain Y''], messages := [AIMessage ''Explain X'']\<rparr>))"
    by simp
  have cl: "''Explain X'' = clean_line '' 1. Explain X''"
    by code_simp
  have sp: "\<forall>c \<in> set '' 1. Explain X''. isspace c \<longrightarrow> c = CHR '' ''"
    by code_simp
  from question_start [OF run mem, of "'' 1. Explain X''"] run cl sp
  show ?thesis by blast
qed

section \<open>The runner keeps the index in range\<close>

lemma evaluate_answer_index_bound:
  assumes "evaluate_answer state reply followup_reply = Inr (state', upd)"
  shows "current_index state' = current_index state
         \<and> current_index state < int (length (questions state))
         \<and> index_after state' upd \<le> int (length (questions state))
         \<and> (index_after state' upd = int (length (questions state))
              \<longrightarrow> upd_messages upd = [AIMessage ''Interview complete.''])
         \<and> (\<exists>m. upd_messages upd = [m])"
proof -
  have same: "current_index state' = current_index state"
    by (subst evaluate_answer_state [OF assms]) simp
  from evaluate_answer_reads [OF assms] obtain q
    where "getitem (questions state) (current_index state) = Inr q" by blast
  from getitem_Inr_bounds [OF this]
  have lt: "current_index state < int (length (questions state))" by simp
  show ?thesis
  proof (cases "contains (lower reply) ''followup: yes''")
    case True
    from evaluate_answer_followup [OF assms True] same lt show ?thesis
      by (simp add: index_after_def)
  next
    case False
    from evaluate_answer_advance [OF assms False] same lt show ?thesis
      by (auto simp: index_after_def split: if_splits)
  qed
qed

lemma evaluate_answer_past_end:
  assumes "int (length (questions state)) \<le> current_index state"
  shows "evaluate_answer state reply followup_reply = Inl IndexError"
proof (cases "evaluate_answer state reply followup_reply")
  case (Inl e)
  then show ?thesis by (cases e) simp
next
  case (Inr p)
  then obtain state' upd where "evaluate_answer state reply followup_reply = Inr (state', upd)"
    by (cases p) auto
  from evaluate_answer_index_bound [OF this] assms show ?thesis by simp
qed

lemma complete_is_detected: "contains (lower ''Interview complete.'') ''interview complete''"
  by code_simp

lemma start_interview_in_range:
  assumes "start_interview resume_data reply = Inr r"
  shows "index_in_range r"
proof -
  from assms obtain result m where g: "generate_questions (initial_state resume_data) reply = Inr result"
    and r: "r = \<lparr>run_state = initial_state resume_data, run_questions = questions result,
                current_question = content m, run_idx = 0, followup_mode = False\<rparr>"
    by (auto simp: start_interview_def Let_def split: sum.splits)
  from g obtain first where "getitem (question_loop [] (split_on newline reply)) 0 = Inr first"
    and "questions result = take 5 (question_loop [] (split_on newline reply))"
    by (auto simp: generate_questions_def Let_def split: sum.splits)
  with getitem_Inr_bounds [of "question_loop [] (split_on newline reply)" 0 first]
  have "0 < length (questions result)" by simp
  with r show ?thesis
    by (simp add: index_in_range_def initial_state_def)
qed

lemma loop_body_in_range:
  assumes "loop_body r turn = Inr (c, r')" and "index_in_range r"
  shows "index_in_range r' \<and> run_questions r' = run_questions r
         \<and> (current_question r' = ''Interview complete.'' \<longrightarrow> c = Break)"
proof -
  obtain answer reply followup_reply where turn: "turn = (answer, reply, followup_reply)"
    by (cases turn) auto
  let ?st = "(run_state r)\<lparr>answers := answers (run_state r) @ [answer],
                             current_index := run_idx r,
                             questions := run_questions r\<rparr>"
  define after :: "InterviewState \<Rightarrow> StateUpdate \<Rightarrow> message \<Rightarrow> error + control \<times> Runner"
    where "after st' result m =
     (let r1 = r\<lparr>run_state := st', current_question := content m\<rparr>
      in if contains (lower (content m)) ''interview complete''
         then Inr (Break, r1)
         else
           (let r2 = (case upd_current_index result of
                        None \<Rightarrow> r1\<lparr>followup_mode := True\<rparr>
                      | Some i \<Rightarrow> r1\<lparr>run_idx := i, followup_mode := False\<rparr>)
            in if run_idx r2 \<ge> int (length (run_questions r2))
               then Inr (Break, r2)
               else Inr (Continue, r2)))" for st' result m
  have body: "loop_body r turn =
      (case evaluate_answer ?st reply followup_reply of
         Inl e \<Rightarrow> Inl e
       | Inr (st', result) \<Rightarrow>
           (case getitem (upd_messages result) (- 1) of
              Inl e \<Rightarrow> Inl e
            | Inr m \<Rightarrow> after st' result m))"
    unfolding loop_body_def turn after_def by simp
  from assms(1) obtain st' result m where
    ev: "evaluate_answer ?st reply followup_reply = Inr (st', result)"
    and m: "getitem (upd_messages result) (- 1) = Inr m"
    and rest: "after st' result m = Inr (c, r')"
    unfolding body by (auto split: sum.splits)
  from evaluate_answer_index_bound [OF ev]
  have same: "current_index st' = run_idx r"
    and le: "index_after st' result \<le> int (length (run_questions r))"
    and fin: "index_after st' result = int (length (run_questions r))
              \<longrightarrow> upd_messages result = [AIMessage ''Interview complete.'']"
    by simp_all
  have ge: "run_idx r \<le> index_after st' result"
    using evaluate_answer_followup [OF ev] evaluate_answer_advance [OF ev] same
    by (cases "contains (lower reply) ''followup: yes''") (auto simp: index_after_def)
  show ?thesis
  proof (cases "contains (lower (content m)) ''interview complete''")
    case True
    with rest have "c = Break" "r' = r\<lparr>run_state := st', current_question := content m\<rparr>"
      by (simp_all add: after_def Let_def)
    with assms(2) same show ?thesis
      by (simp add: index_in_range_def)
  next
    case False
    have ne: "upd_messages result \<noteq> [AIMessage ''Interview complete.'']"
    proof
      assume "upd_messages result = [AIMessage ''Interview complete.'']"
      with m have "m = AIMessage ''Interview complete.''"
        by (simp add: getitem_def)
      with False complete_is_detected show False by simp
    qed
    with fin le have lt: "index_after st' result < int (length (run_questions r))"
      by auto
    have cq: "content m \<noteq> ''Interview complete.''"
      using False complete_is_detected by auto
    show ?thesis
    proof (cases "upd_current_index result")
      case None
      with rest False assms(2)
      have "r' = r\<lparr>run_state := st', current_question := content m, followup_mode := True\<rparr>"
        by (auto simp: after_def Let_def index_in_range_def split: if_splits)
      with assms(2) same cq show ?thesis
        by (simp add: index_in_range_def)
    next
      case (Some i)
      with lt ge have i: "i < int (length (run_questions r))" "run_idx r \<le> i"
        by (simp_all add: index_after_def)
      with rest False Some
      have "r' = r\<lparr>run_state := st', current_question := content m, run_idx := i,
                    followup_mode := False\<rparr>"
        by (auto simp: after_def Let_def split: if_splits)
      with assms(2) same cq i show ?thesis
        by (simp add: index_in_range_def)
    qed
  qed
qed

lemma interview_loop_in_range:
  assumes "interview_loop r turns = Inr (c, r')" and "index_in_range r"
  shows "index_in_range r'
         \<and> (turns \<noteq> [] \<and> current_question r' = ''Interview complete.'' \<longrightarrow> c = Break)"
  using assms
proof (induction turns arbitrary: r)
  case Nil
  then show ?case by simp
next
  case (Cons turn turns)
  from Cons.prems(1) obtain c1 r1 where b: "loop_body r turn = Inr (c1, r1)"
    by (auto split: sum.splits)
  note step = loop_body_in_range [OF b Cons.prems(2)]
  show ?case
  proof (cases c1)
    case Break
    with b Cons.prems(1) have "c = Break" "r' = r1" by simp_all
    with step show ?thesis by simp
  next
    case Continue
    with b Cons.prems(1) have l: "interview_loop r1 turns = Inr (c, r')" by simp
    from Cons.IH [OF l] step have ih: "index_in_range r'"
      "turns \<noteq> [] \<and> current_question r' = ''Interview complete.'' \<longrightarrow> c = Break"
      by simp_all
    show ?thesis
    proof (cases turns)
      case Nil
      with l have "c = Continue" "r' = r1" by simp_all
      with step Continue ih(1) show ?thesis by simp
    next
      case (Cons t ts)
      with ih show ?thesis by simp
    qed
  qed
qed

lemma interview_loop_stops:
  "interview_loop r turns = Inr (Break, r') \<Longrightarrow>
     interview_loop r (turns @ later) = Inr (Break, r')"
proof (induction turns arbitrary: r)
  case Nil
  then show ?case by simp
next
  case (Cons turn turns)
  then show ?case
    by (auto split: sum.splits control.splits)
qed

lemma loop_body_returns:
  assumes "index_in_range r"
  shows "\<exists>c r'. loop_body r turn = Inr (c, r')"
proof -
  obtain answer reply followup_reply where turn: "turn = (answer, reply, followup_reply)"
    by (cases turn) auto
  let ?st = "(run_state r)\<lparr>answers := answers (run_state r) @ [answer],
                             current_index := run_idx r,
                             questions := run_questions r\<rparr>"
  have a: "getitem (answers ?st) (- 1) = Inr answer"
    by (simp add: getitem_def nat_add_distrib)
  from assms getitem_bounds_Inr [of "questions ?st" "current_index ?st"]
  obtain q where q: "getitem (questions ?st) (current_index ?st) = Inr q"
    by (auto simp: index_in_range_def)
  from evaluate_answer_returns [OF a q] obtain st' result
    where ev: "evaluate_answer ?st reply followup_reply = Inr (st', result)" by blast
  from evaluate_answer_index_bound [OF ev] obtain m where "upd_messages result = [m]"
    by blast
  then have m: "getitem (upd_messages result) (- 1) = Inr m"
    by (simp add: getitem_def)
  show ?thesis
    unfolding loop_body_def turn using ev m
    by (simp add: Let_def)
qed

lemma interview_loop_returns:
  "index_in_range r \<Longrightarrow> \<exists>c r'. interview_loop r turns = Inr (c, r')"
proof (induction turns arbitrary: r)
  case Nil
  then show ?case by simp
next
  case (Cons turn turns)
  from loop_body_returns [OF Cons.prems] obtain c1 r1
    where b: "loop_body r turn = Inr (c1, r1)" by blast
  from loop_body_in_range [OF b Cons.prems] have "index_in_range r1" by simp
  from Cons.IH [OF this] b show ?case
    by (cases c1) auto
qed

section \<open>The index stays within the questions\<close>

text \<open>
  Claim C4. Three facts. After a call of \<open>evaluate_answer\<close> that returns, the index of the
  session is at most the number of questions, and it equals that number only when the
  message returned is \<open>Interview complete.\<close>. At an index that has reached the number of
  questions a further call raises \<open>IndexError\<close> at \<open>questions[idx]\<close>, so nothing
  increments the index again. And in every state that \<open>run_interview\<close> reaches, after any
  turns, \<open>idx\<close> and the index written to the state point at a question; the turn that
  emits \<open>Interview complete.\<close> ends the loop, and once the loop has ended further turns
  change nothing.
\<close>

theorem index_within_questions:
  "(evaluate_answer state reply followup_reply = Inr (state', upd) \<longrightarrow>
      index_after state' upd \<le> int (length (questions state))
      \<and> (index_after state' upd = int (length (questions state))
           \<longrightarrow> upd_messages upd = [AIMessage ''Interview complete.'']))
   \<and> (int (length (questions final_state)) \<le> current_index final_state \<longrightarrow>
        evaluate_answer final_state final_reply final_followup = Inl IndexError)
   \<and> (run_interview resume_data first_reply turns = Inr (c, r) \<longrightarrow>
        0 \<le> current_index (run_state r) \<and> current_index (run_state r) \<le> run_idx r
        \<and> run_idx r < int (length (run_questions r))
        \<and> (turns \<noteq> [] \<and> current_question r = ''Interview complete.'' \<longrightarrow> c = Break)
        \<and> (c = Break \<longrightarrow>
             run_interview resume_data first_reply (turns @ later) = Inr (Break, r)))"
proof (intro conjI impI)
  assume ev: "evaluate_answer state reply followup_reply = Inr (state', upd)"
  from evaluate_answer_index_bound [OF ev]
  show "index_after state' upd \<le> int (length (questions state))" by simp
  assume "index_after state' upd = int (length (questions state))"
  with evaluate_answer_index_bound [OF ev]
  show "upd_messages upd = [AIMessage ''Interview complete.'']" by simp
next
  assume "int (length (questions final_state)) \<le> current_index final_state"
  then show "evaluate_answer final_state final_reply final_followup = Inl IndexError"
    by (rule evaluate_answer_past_end)
next
  assume run: "run_interview resume_data first_reply turns = Inr (c, r)"
  then obtain r0 where start: "start_interview resume_data first_reply = Inr r0"
    and loop: "interview_loop r0 turns = Inr (c, r)"
    by (auto simp: run_interview_def split: sum.splits)
  note inv = interview_loop_in_range [OF loop start_interview_in_range [OF start]]
  from inv show "0 \<le> current_index (run_state r)"
    and "current_index (run_state r) \<le> run_idx r"
    and "run_idx r < int (length (run_questions r))"
    by (simp_all add: index_in_range_def)
  {
    assume "turns \<noteq> [] \<and> current_question r = ''Interview complete.''"
    with inv show "c = Break" by simp
  }
  {
    assume "c = Break"
    with loop have "interview_loop r0 (turns @ later) = Inr (Break, r)"
      by (simp add: interview_loop_stops)
    with start show "run_interview resume_data first_reply (turns @ later) = Inr (Break, r)"
      by (simp add: run_interview_def)
  }
qed

theorem index_within_questions_witness:
  "evaluate_answer (example_state\<lparr>current_index := 1\<rparr>) ''FollowUp: no'' [] =
     Inr (example_state\<lparr>current_index := 1\<rparr>,
          \<lparr>upd_current_index = Some 2, upd_messages = [AIMessage ''Interview complete.'']\<rparr>)
   \<and> index_after (example_state\<lparr>current_index := 1\<rparr>)
         \<lparr>upd_current_index = Some 2, upd_messages = [AIMessage ''Interview complete.'']\<rparr>
       = int (length (questions (example_state\<lparr>current_index := 1\<rparr>)))
   \<and> int (length (questions (example_state\<lparr>current_index := 2\<rparr>)))
       \<le> current_index (example_state\<lparr>current_index := 2\<rparr>)
   \<and> evaluate_answer (example_state\<lparr>current_index := 2\<rparr>) ''FollowUp: no'' []
       = Inl IndexError
   \<and> run_interview example_resume ''1. Explain X\<newline>2. Explain Y'' example_turns
       = Inr (Break, example_end)
   \<and> example_turns \<noteq> [] \<and> current_question example_end = ''Interview complete.''
   \<and> 0 \<le> current_index (run_state example_end)
   \<and> current_index (run_state example_end) \<le> run_idx example_end
   \<and> run_idx example_end < int (length (run_questions example_end))
   \<and> run_interview example_resume ''1. Explain X\<newline>2. Explain Y''
         (example_turns @ [(''More'', ''FollowUp: yes'', ''And?'')])
       = Inr (Break, example_end)"
proof -
  have last_call: "evaluate_answer (example_state\<lparr>current_index := 1\<rparr>) ''FollowUp: no'' [] =
     Inr (example_state\<lparr>current_index := 1\<rparr>,
          \<lparr>upd_current_index = Some 2, upd_messages = [AIMessage ''Interview complete.'']\<rparr>)"
    by code_simp
  have reached: "index_after (example_state\<lparr>current_index := 1\<rparr>)
         \<lparr>upd_current_index = Some 2, upd_messages = [AIMessage ''Interview complete.'']\<rparr>
       = int (length (questions (example_state\<lparr>current_index := 1\<rparr>)))"
    by code_simp
  have past: "int (length (questions (example_state\<lparr>current_index := 2\<rparr>)))
       \<le> current_index (example_state\<lparr>current_index := 2\<rparr>)"
    by code_simp
  have run: "run_interview example_resume ''1. Explain X\<newline>2. Explain Y'' example_turns
       = Inr (Break, example_end)"
    by code_simp
  have said: "example_turns \<noteq> [] \<and> current_question example_end = ''Interview complete.''"
    by code_simp
  from index_within_questions [of "example_state\<lparr>current_index := 1\<rparr>" "''FollowUp: no''" "[]"
      "example_state\<lparr>current_index := 1\<rparr>"
      "\<lparr>upd_current_index = Some 2, upd_messages = [AIMessage ''Interview complete.'']\<rparr>"
      "example_state\<lparr>current_index := 2\<rparr>" "''FollowUp: no''" "[]"
      example_resume "''1. Explain X\<newline>2. Explain Y''" example_turns Break example_end
      "[(''More'', ''FollowUp: yes'', ''And?'')]"]
    last_call reached past run said
  show ?thesis by simp
qed

end
